theory Spec2Isabelle
  imports Main "HOL-Library.Word"
begin

section \<open>JavaScript strings\<close>

text \<open>
  A JavaScript string is a sequence of UTF-16 code units; \<open>length\<close>, \<open>indexOf\<close> and the
  columns of the program all count code units. Numbers that the program uses as line
  numbers, columns and lengths are modelled as \<open>int\<close>; a result \<open>null\<close> is \<open>None\<close>.
\<close>

type_synonym jschar = "16 word"
type_synonym jsstring = "jschar list"

definition str :: "string \<Rightarrow> jsstring" where
  \<comment> \<open>the code units of an ASCII literal\<close>
  "str s = map (\<lambda>c. of_nat (of_char c)) s"

definition is_space :: "jschar \<Rightarrow> bool" where
  \<comment> \<open>the class \<open>\s\<close>, which is also the set of characters that \<open>trim\<close> strips:
      WhiteSpace and LineTerminator of ECMAScript\<close>
  "is_space c \<longleftrightarrow>
     c = 0x09 \<or> c = 0x0A \<or> c = 0x0B \<or> c = 0x0C \<or> c = 0x0D \<or> c = 0x20 \<or> c = 0xA0 \<or>
     c = 0x1680 \<or> (0x2000 \<le> c \<and> c \<le> 0x200A) \<or> c = 0x2028 \<or> c = 0x2029 \<or>
     c = 0x202F \<or> c = 0x205F \<or> c = 0x3000 \<or> c = 0xFEFF"

definition is_word :: "jschar \<Rightarrow> bool" where
  \<comment> \<open>the class \<open>\w\<close> (no unicode or ignore-case flag): \<open>[A-Za-z0-9_]\<close>\<close>
  "is_word c \<longleftrightarrow>
     (0x41 \<le> c \<and> c \<le> 0x5A) \<or> (0x61 \<le> c \<and> c \<le> 0x7A) \<or> (0x30 \<le> c \<and> c \<le> 0x39) \<or> c = 0x5F"

definition is_name :: "jschar \<Rightarrow> bool" where
  \<comment> \<open>the class \<open>[\w-]\<close>\<close>
  "is_name c \<longleftrightarrow> is_word c \<or> c = 0x2D"

definition is_colon :: "jschar \<Rightarrow> bool" where
  "is_colon c \<longleftrightarrow> c = 0x3A"

definition is_backtick :: "jschar \<Rightarrow> bool" where
  "is_backtick c \<longleftrightarrow> c = 0x60"

definition is_tilde :: "jschar \<Rightarrow> bool" where
  "is_tilde c \<longleftrightarrow> c = 0x7E"

definition trim :: "jsstring \<Rightarrow> jsstring" where
  \<comment> \<open>\<open>String.prototype.trim\<close>\<close>
  "trim s = rev (dropWhile is_space (rev (dropWhile is_space s)))"

fun indexOf_from :: "nat \<Rightarrow> jsstring \<Rightarrow> jsstring \<Rightarrow> int" where
  "indexOf_from i s pat =
     (if take (length pat) s = pat then int i
      else case s of [] \<Rightarrow> - 1 | c # t \<Rightarrow> indexOf_from (Suc i) t pat)"

definition indexOf :: "jsstring \<Rightarrow> jsstring \<Rightarrow> int" where
  \<comment> \<open>\<open>s.indexOf(pat)\<close>: the least index where \<open>pat\<close> occurs in \<open>s\<close>, or -1\<close>
  "indexOf s pat = indexOf_from 0 s pat"

fun lastIndexOf_from :: "nat \<Rightarrow> jsstring \<Rightarrow> jsstring \<Rightarrow> int" where
  "lastIndexOf_from i s pat =
     (let later = (case s of [] \<Rightarrow> - 1 | c # t \<Rightarrow> lastIndexOf_from (Suc i) t pat)
      in if later \<noteq> - 1 then later
         else if take (length pat) s = pat then int i else - 1)"

definition lastIndexOf :: "jsstring \<Rightarrow> jsstring \<Rightarrow> int" where
  \<comment> \<open>\<open>s.lastIndexOf(pat)\<close>: the greatest index where \<open>pat\<close> occurs in \<open>s\<close>, or -1\<close>
  "lastIndexOf s pat = lastIndexOf_from 0 s pat"

fun findIndex :: "('a \<Rightarrow> bool) \<Rightarrow> 'a list \<Rightarrow> nat option" where
  \<comment> \<open>\<open>Array.prototype.findIndex\<close>; \<open>None\<close> is the result -1\<close>
  "findIndex P [] = None"
| "findIndex P (x # xs) = (if P x then Some 0 else map_option Suc (findIndex P xs))"


section \<open>The regular expressions of the program\<close>

text \<open>
  Every pattern of the program is a sequence of greedy repetitions \<open>c{k,}\<close> of a character
  class, some of them capture groups, possibly anchored at the start (\<open>^\<close>) and at the
  end (\<open>$\<close>). The matcher below is the backtracking matcher of ECMAScript for this
  fragment: a repetition first takes the longest run of its class and gives characters
  back one at a time, down to its minimum, until the rest of the pattern matches; a
  pattern that is not anchored at the start is tried at every index from the left.
\<close>

datatype atom = Atom (captured: bool) (least: nat) (cls: "jschar \<Rightarrow> bool")

record regex =
  anchored :: bool
  atoms :: "atom list"
  to_end :: bool

fun greedy :: "nat \<Rightarrow> nat \<Rightarrow> jsstring \<Rightarrow> (jsstring \<Rightarrow> jsstring list option) \<Rightarrow> jsstring list option" where
  "greedy k n s cont =
     (if n < k then None
      else case cont (drop n s) of
             Some ps \<Rightarrow> Some (take n s # ps)
           | None \<Rightarrow> (case n of 0 \<Rightarrow> None | Suc m \<Rightarrow> greedy k m s cont))"

primrec seq_match :: "bool \<Rightarrow> atom list \<Rightarrow> jsstring \<Rightarrow> jsstring list option" where
  "seq_match e [] = (\<lambda>s. if e \<and> s \<noteq> [] then None else Some [])"
| "seq_match e (a # as) =
     (\<lambda>s. greedy (least a) (length (takeWhile (cls a) s)) s (seq_match e as))"

definition match_at :: "regex \<Rightarrow> jsstring \<Rightarrow> jsstring list option" where
  \<comment> \<open>the match array \<open>[m[0], m[1], ...]\<close> of a match that starts at the head of \<open>s\<close>\<close>
  "match_at r s =
     map_option (\<lambda>ps. concat ps # map fst (filter (\<lambda>(p, a). captured a) (zip ps (atoms r))))
       (seq_match (to_end r) (atoms r) s)"

fun search :: "regex \<Rightarrow> nat \<Rightarrow> jsstring \<Rightarrow> (nat \<times> jsstring list) option" where
  "search r i s =
     (case match_at r s of
        Some m \<Rightarrow> Some (i, m)
      | None \<Rightarrow> (case s of [] \<Rightarrow> None | c # t \<Rightarrow> search r (Suc i) t))"

definition js_match :: "regex \<Rightarrow> jsstring \<Rightarrow> (nat \<times> jsstring list) option" where
  \<comment> \<open>\<open>s.match(r)\<close> for a pattern without the global flag: \<open>None\<close> is \<open>null\<close>, otherwise
      the index of the match and the match array\<close>
  "js_match r s = (if anchored r then map_option (Pair 0) (match_at r s) else search r 0 s)"

definition js_test :: "regex \<Rightarrow> jsstring \<Rightarrow> bool" where
  "js_test r s \<longleftrightarrow> js_match r s \<noteq> None"

definition re_opening_line :: regex where
  \<comment> \<open>\<open>/^\s*(:{2,})([\w-]+)/\<close>\<close>
  "re_opening_line =
     \<lparr>anchored = True,
      atoms = [Atom False 0 is_space, Atom True 2 is_colon, Atom True 1 is_name],
      to_end = False\<rparr>"

definition re_closing_line :: regex where
  \<comment> \<open>\<open>/^\s*(:{2,})\s*$/\<close>\<close>
  "re_closing_line =
     \<lparr>anchored = True,
      atoms = [Atom False 0 is_space, Atom True 2 is_colon, Atom False 0 is_space],
      to_end = True\<rparr>"

definition re_fence_backticks :: regex where
  \<comment> \<open>\<open>/^\s*`{3,}/\<close>, the first alternative of \<open>/^\s*(?:`{3,}|~{3,})/\<close>\<close>
  "re_fence_backticks =
     \<lparr>anchored = True, atoms = [Atom False 0 is_space, Atom False 3 is_backtick], to_end = False\<rparr>"

definition re_fence_tildes :: regex where
  \<comment> \<open>\<open>/^\s*~{3,}/\<close>, the second alternative of \<open>/^\s*(?:`{3,}|~{3,})/\<close>\<close>
  "re_fence_tildes =
     \<lparr>anchored = True, atoms = [Atom False 0 is_space, Atom False 3 is_tilde], to_end = False\<rparr>"

definition is_fence :: "jsstring \<Rightarrow> bool" where
  \<comment> \<open>\<open>/^\s*(?:`{3,}|~{3,})/.test(s)\<close>: the pattern matches when it does with one of the
      two alternatives\<close>
  "is_fence s \<longleftrightarrow> js_test re_fence_backticks s \<or> js_test re_fence_tildes s"

definition re_opening_trimmed :: regex where
  \<comment> \<open>\<open>/^(:{2,})([\w-]+)/\<close>\<close>
  "re_opening_trimmed =
     \<lparr>anchored = True, atoms = [Atom True 2 is_colon, Atom True 1 is_name], to_end = False\<rparr>"

definition re_closing_trimmed :: regex where
  \<comment> \<open>\<open>/^(:{2,})$/\<close>\<close>
  "re_closing_trimmed = \<lparr>anchored = True, atoms = [Atom True 2 is_colon], to_end = True\<rparr>"

definition re_opening_range :: regex where
  \<comment> \<open>\<open>/(:{2,})([\w-]+)/\<close>\<close>
  "re_opening_range =
     \<lparr>anchored = False, atoms = [Atom True 2 is_colon, Atom True 1 is_name], to_end = False\<rparr>"

definition re_closing_range :: regex where
  \<comment> \<open>\<open>/(:{2,})$/\<close>\<close>
  "re_closing_range = \<lparr>anchored = False, atoms = [Atom True 2 is_colon], to_end = True\<rparr>"


section \<open>The data model\<close>

text \<open>
  The document is the interface \<open>TextDocument\<close>: \<open>getLine\<close> may throw, which is the
  result \<open>Inl Exception\<close>, and returns the same text each time it is asked for a line
  during one query.
\<close>

datatype exn = Exception

record TextDocument =
  getLine :: "int \<Rightarrow> exn + jsstring"
  lineCount :: int

record Position =
  line :: int
  column :: int

record Range =
  startLine :: int
  startColumn :: int
  endLine :: int
  endColumn :: int

record BracketMatch =
  "opening" :: Range
  closing :: Range
  colonCount :: int

record BracketBlock =
  line :: int
  colonCount :: int
  isOpening :: bool
  tagName :: "jsstring option"

definition createDocument :: "jsstring list \<Rightarrow> TextDocument" where
  \<comment> \<open>the document of the test suite: \<open>getLine\<close> is \<open>lines[lineNumber] || ''\<close>\<close>
  "createDocument lines =
     \<lparr>getLine = (\<lambda>n. if 0 \<le> n \<and> n < int (length lines) then Inr (lines ! nat n) else Inr []),
      lineCount = int (length lines)\<rparr>"


section \<open>The position classifier\<close>

definition detectBracketAtPosition :: "jsstring \<Rightarrow> int \<Rightarrow> int option" where
  \<comment> \<open>the result is the \<open>colonCount\<close> of the object returned, \<open>None\<close> is \<open>null\<close>\<close>
  "detectBracketAtPosition lineContent col =
     (let atOpening =
        (case js_match re_opening_line lineContent of
           None \<Rightarrow> None
         | Some (idx, openingMatch) \<Rightarrow>
             let colonCount = int (length (openingMatch ! 1));
                 colonStart = int idx + indexOf (openingMatch ! 0) (openingMatch ! 1);
                 componentNameEnd =
                   colonStart + int (length (openingMatch ! 1)) + int (length (openingMatch ! 2))
             in if col \<ge> colonStart \<and> col \<le> componentNameEnd then Some colonCount else None)
      in case atOpening of
           Some r \<Rightarrow> Some r
         | None \<Rightarrow>
            (case js_match re_closing_line lineContent of
               None \<Rightarrow> None
             | Some (idx, closingMatch) \<Rightarrow>
                 let colonCount = int (length (closingMatch ! 1));
                     colonStart = int idx + indexOf (closingMatch ! 0) (closingMatch ! 1);
                     colonEnd = colonStart + colonCount
                 in if col \<ge> colonStart \<and> col \<le> colonEnd then Some colonCount else None))"


section \<open>The document scanner\<close>

definition scanLine :: "int \<Rightarrow> jsstring \<Rightarrow> bool \<times> BracketBlock list \<Rightarrow> bool \<times> BracketBlock list" where
  \<comment> \<open>the body of the loop of \<open>scanAllBrackets\<close> on one line; the state is
      \<open>(insideCodeBlock, brackets)\<close>\<close>
  "scanLine lineNumber lineContent st =
     (case st of (insideCodeBlock, brackets) \<Rightarrow>
        let trimmed = trim lineContent in
        if is_fence trimmed then (\<not> insideCodeBlock, brackets)
        else if insideCodeBlock then (insideCodeBlock, brackets)
        else case js_match re_opening_trimmed trimmed of
               Some (idx, openingMatch) \<Rightarrow>
                 (insideCodeBlock,
                  brackets @ [\<lparr>line = lineNumber, colonCount = int (length (openingMatch ! 1)),
                               isOpening = True, tagName = Some (openingMatch ! 2)\<rparr>])
             | None \<Rightarrow>
                (case js_match re_closing_trimmed trimmed of
                   Some (idx, closingMatch) \<Rightarrow>
                     (insideCodeBlock,
                      brackets @ [\<lparr>line = lineNumber, colonCount = int (length (closingMatch ! 1)),
                                   isOpening = False, tagName = None\<rparr>])
                 | None \<Rightarrow> (insideCodeBlock, brackets)))"

function scanLoop :: "TextDocument \<Rightarrow> int \<Rightarrow> bool \<times> BracketBlock list \<Rightarrow> exn + BracketBlock list" where
  "scanLoop document lineNumber st =
     (if lineNumber < lineCount document then
        (case getLine document lineNumber of
           Inl e \<Rightarrow> Inl e
         | Inr lineContent \<Rightarrow> scanLoop document (lineNumber + 1) (scanLine lineNumber lineContent st))
      else Inr (snd st))"
  by pat_completeness auto
termination
  by (relation "measure (\<lambda>(document, lineNumber, st). nat (lineCount document - lineNumber))") auto

declare scanLoop.simps [simp del]

definition scanAllBrackets :: "TextDocument \<Rightarrow> exn + BracketBlock list" where
  "scanAllBrackets document = scanLoop document 0 (False, [])"


section \<open>The matcher\<close>

text \<open>
  The stack is a JavaScript array: \<open>push\<close> appends at the end, the top is the last
  element, \<open>pop\<close> removes it.
\<close>

function scanForward :: "BracketBlock list \<Rightarrow> BracketBlock list \<Rightarrow> nat \<Rightarrow> BracketBlock option" where
  "scanForward brackets stack i =
     (if i < length brackets then
        (let bracket = brackets ! i in
         if isOpening bracket then scanForward brackets (stack @ [bracket]) (i + 1)
         else if stack \<noteq> [] \<and> colonCount (last stack) = colonCount bracket then
                (if butlast stack = [] then Some bracket
                 else scanForward brackets (butlast stack) (i + 1))
              else scanForward brackets stack (i + 1))
      else None)"
  by pat_completeness auto
termination
  by (relation "measure (\<lambda>(brackets, stack, i). length brackets - i)") auto

declare scanForward.simps [simp del]

fun scanBackward :: "BracketBlock list \<Rightarrow> BracketBlock list \<Rightarrow> nat \<Rightarrow> BracketBlock option" where
  \<comment> \<open>the third argument is \<open>i + 1\<close> for the loop variable \<open>i\<close>, so that \<open>0\<close> is \<open>i = -1\<close>\<close>
  "scanBackward brackets stack 0 = None"
| "scanBackward brackets stack (Suc i) =
     (let bracket = brackets ! i in
      if \<not> isOpening bracket then scanBackward brackets (stack @ [bracket]) i
      else if stack \<noteq> [] \<and> colonCount (last stack) = colonCount bracket then
             (if butlast stack = [] then Some bracket
              else scanBackward brackets (butlast stack) i)
           else scanBackward brackets stack i)"

definition findMatchingBracket :: "BracketBlock list \<Rightarrow> nat \<Rightarrow> BracketBlock option" where
  "findMatchingBracket brackets currentIndex =
     (let currentBracket = brackets ! currentIndex in
      if isOpening currentBracket then scanForward brackets [currentBracket] (currentIndex + 1)
      else scanBackward brackets [currentBracket] currentIndex)"


section \<open>The range builder\<close>

definition createBracketRange :: "TextDocument \<Rightarrow> BracketBlock \<Rightarrow> exn + Range" where
  "createBracketRange document bracket =
     (let lineNumber = line bracket in
      case getLine document lineNumber of
        Inl e \<Rightarrow> Inl e
      | Inr lineContent \<Rightarrow>
          Inr (case (if isOpening bracket then
                       (case js_match re_opening_range lineContent of
                          None \<Rightarrow> None
                        | Some (idx, m) \<Rightarrow>
                            let startColumn = indexOf lineContent (m ! 0);
                                endColumn = startColumn + int (length (m ! 0))
                            in Some \<lparr>startLine = lineNumber, startColumn = startColumn,
                                     endLine = lineNumber, endColumn = endColumn\<rparr>)
                     else
                       (case js_match re_closing_range lineContent of
                          None \<Rightarrow> None
                        | Some (idx, m) \<Rightarrow>
                            let startColumn = lastIndexOf lineContent (m ! 0);
                                endColumn = startColumn + int (length (m ! 0))
                            in Some \<lparr>startLine = lineNumber, startColumn = startColumn,
                                     endLine = lineNumber, endColumn = endColumn\<rparr>))
               of Some r \<Rightarrow> r
                | None \<Rightarrow> \<lparr>startLine = lineNumber, startColumn = 0,
                           endLine = lineNumber, endColumn = int (length lineContent)\<rparr>))"


section \<open>The query\<close>

definition findMatchingBrackets_body :: "TextDocument \<Rightarrow> Position \<Rightarrow> exn + BracketMatch option" where
  \<comment> \<open>the \<open>try\<close> block: \<open>Inl\<close> is an exception thrown in it, \<open>Inr None\<close> is \<open>return null\<close>\<close>
  "findMatchingBrackets_body document position =
     (case getLine document (Position.line position) of
        Inl e \<Rightarrow> Inl e
      | Inr lineContent \<Rightarrow>
         (case detectBracketAtPosition lineContent (column position) of
            None \<Rightarrow> Inr None
          | Some bracketAtCursor \<Rightarrow>
             (case scanAllBrackets document of
                Inl e \<Rightarrow> Inl e
              | Inr brackets \<Rightarrow>
                 if length brackets = 0 then Inr None
                 else
                  (case findIndex (\<lambda>b. line b = Position.line position) brackets of
                     None \<Rightarrow> Inr None
                   | Some currentBracketIndex \<Rightarrow>
                      let currentBracket = brackets ! currentBracketIndex in
                      (case findMatchingBracket brackets currentBracketIndex of
                         None \<Rightarrow> Inr None
                       | Some matchingBracket \<Rightarrow>
                          (case createBracketRange document
                                  (if isOpening currentBracket then currentBracket else matchingBracket) of
                             Inl e \<Rightarrow> Inl e
                           | Inr openingRange \<Rightarrow>
                              (case createBracketRange document
                                      (if isOpening currentBracket then matchingBracket else currentBracket) of
                                 Inl e \<Rightarrow> Inl e
                               | Inr closingRange \<Rightarrow>
                                  Inr (Some \<lparr>opening = openingRange, closing = closingRange,
                                             colonCount = colonCount currentBracket\<rparr>))))))))"

definition findMatchingBrackets :: "TextDocument \<Rightarrow> Position \<Rightarrow> BracketMatch option" where
  \<comment> \<open>the \<open>catch\<close> clause turns every exception of the body into \<open>null\<close>\<close>
  "findMatchingBrackets document position =
     (case findMatchingBrackets_body document position of
        Inl e \<Rightarrow> None
      | Inr r \<Rightarrow> r)"


section \<open>Notions used to state the properties\<close>

text \<open>
  The two loops of the matcher visit the brackets after the current one from left to right,
  and the brackets before it from right to left. \<open>walk\<close> is their common body over the
  list of brackets still to visit: \<open>walk True\<close> pushes openings and pops at closings (the
  forward loop), \<open>walk False\<close> pushes closings and pops at openings (the backward loop).
\<close>

fun walk :: "bool \<Rightarrow> BracketBlock list \<Rightarrow> BracketBlock list \<Rightarrow> BracketBlock option" where
  "walk d stack [] = None"
| "walk d stack (bracket # rest) =
     (if isOpening bracket = d then walk d (stack @ [bracket]) rest
      else if stack \<noteq> [] \<and> colonCount (last stack) = colonCount bracket then
             (if butlast stack = [] then Some bracket else walk d (butlast stack) rest)
           else walk d stack rest)"

text \<open>
  \<open>token_of lineContent b\<close>: the bracket \<open>b\<close> is what the scanner reads from the line
  \<open>lineContent\<close>. \<open>scanned document n brackets\<close>: the brackets are those of lines before
  \<open>n\<close>, in ascending line order, each read from its line. \<open>nested\<close>: a sequence of brackets
  in which every opening is closed by a later closing of the same colon count, the pairs
  nested in or following one another.
\<close>

definition token_of :: "jsstring \<Rightarrow> BracketBlock \<Rightarrow> bool" where
  "token_of lineContent b \<longleftrightarrow>
     colonCount b = int (length (takeWhile is_colon (trim lineContent))) \<and>
     2 \<le> colonCount b \<and>
     (if isOpening b then takeWhile is_name (dropWhile is_colon (trim lineContent)) \<noteq> []
      else dropWhile is_colon (trim lineContent) = [])"

definition scanned :: "TextDocument \<Rightarrow> int \<Rightarrow> BracketBlock list \<Rightarrow> bool" where
  "scanned document n brackets \<longleftrightarrow>
     sorted_wrt (<) (map line brackets) \<and>
     (\<forall>b\<in>set brackets. 0 \<le> line b \<and> line b < n \<and>
        (\<exists>lineContent. getLine document (line b) = Inr lineContent \<and> token_of lineContent b))"

inductive nested :: "BracketBlock list \<Rightarrow> bool" where
  empty: "nested []"
| pair: "nested xs \<Longrightarrow> isOpening ob \<Longrightarrow> \<not> isOpening cb \<Longrightarrow> colonCount ob = colonCount cb
          \<Longrightarrow> nested (ob # xs @ [cb])"
| seq: "nested xs \<Longrightarrow> nested ys \<Longrightarrow> nested (xs @ ys)"

text \<open>The documents of the scenarios.\<close>

definition doc_nested :: TextDocument where
  "doc_nested = createDocument (map str [''::outer'', ''::inner'', ''content'', ''::'', ''::''])"

definition doc_fenced :: TextDocument where
  "doc_fenced = createDocument (map str [''::component'', ''```'', ''::fake'', ''::'', ''```'', ''::''])"

definition doc_missing :: TextDocument where
  "doc_missing = createDocument (map str [''::outer'', ''::inner'', ''::''])"

definition doc_trailing :: TextDocument where
  "doc_trailing = createDocument (map str [''::a'', ''  ::  ''])"

definition doc_skipped :: TextDocument where
  \<comment> \<open>the document of the test \<open>does not match brackets with different colon counts\<close>\<close>
  "doc_skipped = createDocument (map str [''::component'', '':::'', ''Content'', ''::''])"

definition doc_two_partners :: TextDocument where
  "doc_two_partners = createDocument (map str [''::a'', '':::b'', ''::c'', '':::'', ''::''])"

definition doc_mixed :: TextDocument where
  "doc_mixed = createDocument (map str ['':::a'', ''::b'', ''::'', '':::''])"

definition doc_faulty :: TextDocument where
  "doc_faulty = \<lparr>getLine = (\<lambda>n. if n = 0 then Inr (str ''::a'') else Inl Exception), lineCount = 2\<rparr>"


section \<open>Properties of the pattern matcher\<close>

declare greedy.simps [simp del]
declare seq_match.simps [simp del]

lemma greedy_below: "n < k \<Longrightarrow> greedy k n s cont = None"
  by (subst greedy.simps) simp

lemma greedy_top: "k \<le> n \<Longrightarrow> cont (drop n s) = Some ps \<Longrightarrow> greedy k n s cont = Some (take n s # ps)"
  by (subst greedy.simps) simp

lemma greedy_reject: "(\<And>m. m \<le> n \<Longrightarrow> cont (drop m s) = None) \<Longrightarrow> greedy k n s cont = None"
proof (induction n)
  case 0
  then show ?case by (subst greedy.simps) simp
next
  case (Suc n)
  have "greedy k n s cont = None" using Suc by simp
  moreover have "cont (drop (Suc n) s) = None" using Suc.prems by blast
  ultimately show ?case by (subst greedy.simps) simp
qed

lemma greedy_longest:
  assumes "\<And>m. m < n \<Longrightarrow> cont (drop m s) = None"
  shows "greedy k n s cont =
           (if k \<le> n then map_option (Cons (take n s)) (cont (drop n s)) else None)"
proof (cases "k \<le> n")
  case False
  then show ?thesis by (simp add: greedy_below)
next
  case True
  show ?thesis
  proof (cases "cont (drop n s)")
    case (Some ps)
    with True show ?thesis by (simp add: greedy_top)
  next
    case None
    have "greedy k n s cont = None"
    proof (rule greedy_reject)
      fix m assume "m \<le> n"
      then show "cont (drop m s) = None" using None assms by (cases "m = n") auto
    qed
    with None True show ?thesis by simp
  qed
qed

lemma take_run: "take (length (takeWhile P s)) s = takeWhile P s"
  by (metis takeWhile_eq_take)

lemma drop_run: "drop (length (takeWhile P s)) s = dropWhile P s"
  by (metis dropWhile_eq_drop)

lemma drop_in_run:
  assumes "m < length (takeWhile P s)"
  shows "\<exists>c t. drop m s = c # t \<and> P c"
proof -
  have "m < length s" using assms length_takeWhile_le [of P s] by (meson less_le_trans)
  then have "drop m s = s ! m # drop (Suc m) s" by (simp add: Cons_nth_drop_Suc)
  moreover have "P (s ! m)"
  proof -
    have "takeWhile P s ! m \<in> set (takeWhile P s)" using assms by simp
    then have "P (takeWhile P s ! m)" by (rule set_takeWhileD [THEN conjunct2])
    then show ?thesis using assms by (simp add: takeWhile_nth)
  qed
  ultimately show ?thesis by blast
qed

text \<open>a repetition followed by a pattern that cannot start with a character of its class\<close>
lemma seq_match_Cons:
  assumes "\<And>c t. cls a c \<Longrightarrow> seq_match e as (c # t) = None"
  shows "seq_match e (a # as) s =
           (if least a \<le> length (takeWhile (cls a) s)
            then map_option (Cons (takeWhile (cls a) s)) (seq_match e as (dropWhile (cls a) s))
            else None)"
proof -
  have "seq_match e as (drop m s) = None" if "m < length (takeWhile (cls a) s)" for m
    using drop_in_run [OF that] assms by auto
  then show ?thesis
    by (simp add: seq_match.simps greedy_longest take_run drop_run)
qed

lemma seq_match_last:
  "seq_match False [a] s =
     (if least a \<le> length (takeWhile (cls a) s) then Some [takeWhile (cls a) s] else None)"
  by (simp add: seq_match.simps greedy_below greedy_top take_run)

lemma seq_match_Nil_end: "seq_match True [] (c # t) = None"
  by (simp add: seq_match.simps)

lemma seq_match_unfit:
  "\<not> cls a c \<Longrightarrow> 0 < least a \<Longrightarrow> seq_match e (a # as) (c # t) = None"
  by (simp add: seq_match.simps greedy_below)

lemma seq_match_skip:
  "\<not> cls a c \<Longrightarrow> seq_match e as (c # t) = None \<Longrightarrow> seq_match e (a # as) (c # t) = None"
proof -
  assume a: "\<not> cls a c" "seq_match e as (c # t) = None"
  have "greedy (least a) 0 (c # t) (seq_match e as) = None"
    using a(2) by (subst greedy.simps) simp
  with a(1) show ?thesis by (simp add: seq_match.simps)
qed


subsection \<open>Character classes\<close>

lemma colon_not_space: "is_colon c \<Longrightarrow> \<not> is_space c"
  by (simp add: is_colon_def is_space_def)

lemma colon_not_name: "is_colon c \<Longrightarrow> \<not> is_name c"
  by (simp add: is_colon_def is_name_def is_word_def)

lemma space_not_colon: "is_space c \<Longrightarrow> \<not> is_colon c"
  using colon_not_space by blast

lemma space_not_backtick: "is_space c \<Longrightarrow> \<not> is_backtick c"
  by (auto simp add: is_backtick_def is_space_def)

lemma space_not_tilde: "is_space c \<Longrightarrow> \<not> is_tilde c"
  by (auto simp add: is_tilde_def is_space_def)

subsection \<open>The patterns, without backtracking\<close>

lemma name_rejects_colon:
  "is_colon c \<Longrightarrow> seq_match e (Atom g 1 is_name # as) (c # t) = None"
  by (rule seq_match_unfit) (simp_all add: colon_not_name)

lemma colons_reject_space:
  "is_space c \<Longrightarrow> seq_match e (Atom g 2 is_colon # as) (c # t) = None"
  by (rule seq_match_unfit) (simp_all add: space_not_colon)

lemma spaces_end_reject_colon:
  "is_colon c \<Longrightarrow> seq_match True [Atom g 0 is_space] (c # t) = None"
  by (rule seq_match_skip) (simp_all add: colon_not_space seq_match_Nil_end)

lemma seq_colons_name:
  "seq_match False [Atom True 2 is_colon, Atom True 1 is_name] s =
     (let cs = takeWhile is_colon s; nm = takeWhile is_name (dropWhile is_colon s)
      in if 2 \<le> length cs \<and> 1 \<le> length nm then Some [cs, nm] else None)"
proof -
  have "seq_match False [Atom True 2 is_colon, Atom True 1 is_name] s =
          (if 2 \<le> length (takeWhile is_colon s)
           then map_option (Cons (takeWhile is_colon s))
                  (seq_match False [Atom True 1 is_name] (dropWhile is_colon s))
           else None)"
    by (subst seq_match_Cons) (simp_all add: name_rejects_colon del: One_nat_def)
  then show ?thesis
    by (simp add: seq_match_last Let_def del: One_nat_def)
qed

lemma seq_colons_end:
  "seq_match True [Atom True 2 is_colon] s =
     (let cs = takeWhile is_colon s
      in if 2 \<le> length cs \<and> dropWhile is_colon s = [] then Some [cs] else None)"
  by (subst seq_match_Cons) (simp_all add: seq_match_Nil_end seq_match.simps Let_def)

lemma seq_spaces_end:
  "seq_match True [Atom False 0 is_space] s =
     (if dropWhile is_space s = [] then Some [takeWhile is_space s] else None)"
  by (subst seq_match_Cons) (simp_all add: seq_match_Nil_end seq_match.simps)

lemma seq_colons_spaces_end:
  "seq_match True [Atom True 2 is_colon, Atom False 0 is_space] s =
     (let cs = takeWhile is_colon s; r = dropWhile is_colon s
      in if 2 \<le> length cs \<and> dropWhile is_space r = []
         then Some [cs, takeWhile is_space r] else None)"
proof -
  have "seq_match True [Atom True 2 is_colon, Atom False 0 is_space] s =
          (if 2 \<le> length (takeWhile is_colon s)
           then map_option (Cons (takeWhile is_colon s))
                  (seq_match True [Atom False 0 is_space] (dropWhile is_colon s))
           else None)"
    by (subst seq_match_Cons) (simp_all add: spaces_end_reject_colon)
  then show ?thesis
    by (simp only: seq_spaces_end Let_def) simp
qed

lemma seq_spaces_colons_name:
  "seq_match False [Atom False 0 is_space, Atom True 2 is_colon, Atom True 1 is_name] s =
     (let ws = takeWhile is_space s; r = dropWhile is_space s;
          cs = takeWhile is_colon r; nm = takeWhile is_name (dropWhile is_colon r)
      in if 2 \<le> length cs \<and> 1 \<le> length nm then Some [ws, cs, nm] else None)"
proof -
  have "seq_match False [Atom False 0 is_space, Atom True 2 is_colon, Atom True 1 is_name] s =
          map_option (Cons (takeWhile is_space s))
            (seq_match False [Atom True 2 is_colon, Atom True 1 is_name] (dropWhile is_space s))"
    by (subst seq_match_Cons) (simp_all add: colons_reject_space del: One_nat_def)
  then show ?thesis
    by (simp only: seq_colons_name Let_def) simp
qed

lemma seq_spaces_colons_spaces_end:
  "seq_match True [Atom False 0 is_space, Atom True 2 is_colon, Atom False 0 is_space] s =
     (let ws = takeWhile is_space s; r = dropWhile is_space s;
          cs = takeWhile is_colon r; r' = dropWhile is_colon r
      in if 2 \<le> length cs \<and> dropWhile is_space r' = []
         then Some [ws, cs, takeWhile is_space r'] else None)"
proof -
  have "seq_match True [Atom False 0 is_space, Atom True 2 is_colon, Atom False 0 is_space] s =
          map_option (Cons (takeWhile is_space s))
            (seq_match True [Atom True 2 is_colon, Atom False 0 is_space] (dropWhile is_space s))"
    by (subst seq_match_Cons) (simp_all add: colons_reject_space)
  then show ?thesis
    by (simp only: seq_colons_spaces_end Let_def) simp
qed

lemma seq_spaces_fence:
  assumes "\<And>c. is_space c \<Longrightarrow> \<not> P c"
  shows "seq_match False [Atom False 0 is_space, Atom False 3 P] s =
           (if 3 \<le> length (takeWhile P (dropWhile is_space s))
            then Some [takeWhile is_space s, takeWhile P (dropWhile is_space s)] else None)"
proof -
  have rej: "seq_match False [Atom False 3 P] (c # t) = None" if "is_space c" for c t
    by (rule seq_match_unfit) (use that assms in simp_all)
  have "seq_match False [Atom False 0 is_space, Atom False 3 P] s =
          map_option (Cons (takeWhile is_space s))
            (seq_match False [Atom False 3 P] (dropWhile is_space s))"
    by (subst seq_match_Cons) (simp_all add: rej)
  then show ?thesis
    by (simp only: seq_match_last) simp
qed

lemma match_opening_trimmed:
  "js_match re_opening_trimmed s =
     (let cs = takeWhile is_colon s; nm = takeWhile is_name (dropWhile is_colon s)
      in if 2 \<le> length cs \<and> 1 \<le> length nm then Some (0, [cs @ nm, cs, nm]) else None)"
  unfolding js_match_def match_at_def re_opening_trimmed_def regex.simps seq_colons_name
  by (simp add: Let_def)

lemma match_closing_trimmed:
  "js_match re_closing_trimmed s =
     (let cs = takeWhile is_colon s
      in if 2 \<le> length cs \<and> dropWhile is_colon s = [] then Some (0, [cs, cs]) else None)"
  unfolding js_match_def match_at_def re_closing_trimmed_def regex.simps seq_colons_end
  by (simp add: Let_def)

lemma match_opening_line:
  "js_match re_opening_line s =
     (let ws = takeWhile is_space s; r = dropWhile is_space s;
          cs = takeWhile is_colon r; nm = takeWhile is_name (dropWhile is_colon r)
      in if 2 \<le> length cs \<and> 1 \<le> length nm then Some (0, [ws @ cs @ nm, cs, nm]) else None)"
  unfolding js_match_def match_at_def re_opening_line_def regex.simps seq_spaces_colons_name
  by (simp add: Let_def)

lemma match_closing_line:
  "js_match re_closing_line s =
     (let ws = takeWhile is_space s; r = dropWhile is_space s;
          cs = takeWhile is_colon r; r' = dropWhile is_colon r
      in if 2 \<le> length cs \<and> dropWhile is_space r' = []
         then Some (0, [ws @ cs @ takeWhile is_space r', cs]) else None)"
  unfolding js_match_def match_at_def re_closing_line_def regex.simps seq_spaces_colons_spaces_end
  by (simp add: Let_def)

lemma is_fence_iff:
  "is_fence s \<longleftrightarrow>
     3 \<le> length (takeWhile is_backtick (dropWhile is_space s)) \<or>
     3 \<le> length (takeWhile is_tilde (dropWhile is_space s))"
proof -
  note b = seq_spaces_fence [of is_backtick s, OF space_not_backtick]
  note t = seq_spaces_fence [of is_tilde s, OF space_not_tilde]
  show ?thesis
    unfolding is_fence_def js_test_def js_match_def match_at_def re_fence_backticks_def
      re_fence_tildes_def regex.simps
    by (simp add: b t)
qed

subsection \<open>The classifier\<close>

lemma name_not_space: "is_name c \<Longrightarrow> \<not> is_space c"
  by (auto simp add: is_name_def is_word_def is_space_def word_le_nat_alt)

lemma name_not_colon: "is_name c \<Longrightarrow> \<not> is_colon c"
  using colon_not_name by blast

lemma run_append:
  assumes "\<forall>x\<in>set xs. P x" and "ys = [] \<or> \<not> P (hd ys)"
  shows "takeWhile P (xs @ ys) = xs" and "dropWhile P (xs @ ys) = ys"
proof -
  have "takeWhile P ys = []" using assms(2) by (cases ys) auto
  then show "takeWhile P (xs @ ys) = xs" using assms(1) by (simp add: takeWhile_append2)
  have "dropWhile P ys = ys" using assms(2) by (cases ys) auto
  then show "dropWhile P (xs @ ys) = ys" using assms(1) by (simp add: dropWhile_append2)
qed

lemma indexOf_from_skip:
  assumes "pat \<noteq> []" and "hd pat \<notin> set ws"
  shows "indexOf_from i (ws @ pat @ r) pat = int (i + length ws)"
  using assms
proof (induction ws arbitrary: i)
  case Nil
  then show ?case by simp
next
  case (Cons w ws)
  have "take (length pat) (w # ws @ pat @ r) \<noteq> pat"
  proof
    assume "take (length pat) (w # ws @ pat @ r) = pat"
    then have "hd (take (length pat) (w # ws @ pat @ r)) = hd pat" by simp
    moreover have "0 < length pat" using Cons.prems(1) by simp
    ultimately have "w = hd pat" by (cases "length pat") auto
    with Cons.prems(2) show False by simp
  qed
  moreover have "indexOf_from (Suc i) (ws @ pat @ r) pat = int (Suc i + length ws)"
    using Cons by simp
  ultimately show ?case by simp
qed

lemma indexOf_skip:
  "pat \<noteq> [] \<Longrightarrow> hd pat \<notin> set ws \<Longrightarrow> indexOf (ws @ pat @ r) pat = int (length ws)"
  by (simp add: indexOf_def indexOf_from_skip del: indexOf_from.simps)

lemma opening_line_parts:
  assumes "lineContent = ws @ cs @ nm @ rest"
    and "\<forall>c\<in>set ws. is_space c"
    and "\<forall>c\<in>set cs. is_colon c" and "2 \<le> length cs"
    and "\<forall>c\<in>set nm. is_name c" and "nm \<noteq> []"
    and "rest = [] \<or> \<not> is_name (hd rest)"
  shows "takeWhile is_space lineContent = ws"
    and "dropWhile is_space lineContent = cs @ nm @ rest"
    and "takeWhile is_colon (cs @ nm @ rest) = cs"
    and "dropWhile is_colon (cs @ nm @ rest) = nm @ rest"
    and "takeWhile is_name (nm @ rest) = nm"
    and "dropWhile is_space (nm @ rest) \<noteq> []"
    and "indexOf (ws @ cs @ nm) cs = int (length ws)"
proof -
  have cs: "cs \<noteq> []" using assms(4) by auto
  have hcs: "is_colon (hd (cs @ nm @ rest))" using cs assms(3) by simp
  have hnm: "is_name (hd (nm @ rest))" using assms(5,6) by simp
  show "takeWhile is_space lineContent = ws" "dropWhile is_space lineContent = cs @ nm @ rest"
    unfolding assms(1) using run_append [of ws is_space "cs @ nm @ rest"] assms(2) hcs colon_not_space
    by blast+
  show "takeWhile is_colon (cs @ nm @ rest) = cs" "dropWhile is_colon (cs @ nm @ rest) = nm @ rest"
    using run_append [of cs is_colon "nm @ rest"] assms(3) hnm name_not_colon by blast+
  show "takeWhile is_name (nm @ rest) = nm"
    using run_append [of nm is_name rest] assms(5,7) by blast
  show "dropWhile is_space (nm @ rest) \<noteq> []"
    using hnm name_not_space assms(6) by (cases nm) auto
  have "hd cs \<notin> set ws" using assms(2,3) cs colon_not_space by (metis hd_in_set)
  then show "indexOf (ws @ cs @ nm) cs = int (length ws)"
    using indexOf_skip [of cs ws nm] cs by simp
qed

lemma detect_on_opening_line:
  assumes "lineContent = ws @ cs @ nm @ rest"
    and "\<forall>c\<in>set ws. is_space c"
    and "\<forall>c\<in>set cs. is_colon c" and "2 \<le> length cs"
    and "\<forall>c\<in>set nm. is_name c" and "nm \<noteq> []"
    and "rest = [] \<or> \<not> is_name (hd rest)"
  shows "detectBracketAtPosition lineContent col =
           (if int (length ws) \<le> col \<and> col \<le> int (length ws) + int (length cs) + int (length nm)
            then Some (int (length cs)) else None)"
proof -
  note p = opening_line_parts [OF assms]
  have nm: "1 \<le> length nm" using assms(6) by (cases nm) auto
  have o: "js_match re_opening_line lineContent = Some (0, [ws @ cs @ nm, cs, nm])"
    unfolding match_opening_line using assms(4) nm by (simp add: p Let_def)
  have c: "js_match re_closing_line lineContent = None"
    unfolding match_closing_line Let_def p(1-4) using p(6) by simp
  show ?thesis
    unfolding detectBracketAtPosition_def o c by (simp add: p(7) Let_def)
qed

subsection \<open>The scanner\<close>

lemma scanLine_cases:
  "snd (scanLine n lc (ins, bs)) = bs \<or>
   (\<exists>b. snd (scanLine n lc (ins, bs)) = bs @ [b] \<and> line b = n \<and> token_of lc b)"
  by (auto simp add: scanLine_def match_opening_trimmed match_closing_trimmed token_of_def Let_def)

lemma scanned_step:
  assumes "scanned document n (snd st)" and "getLine document n = Inr lc" and "0 \<le> n"
  shows "scanned document (n + 1) (snd (scanLine n lc st))"
proof -
  obtain ins bs where st: "st = (ins, bs)" by (cases st)
  from scanLine_cases [of n lc ins bs] show ?thesis
  proof
    assume "snd (scanLine n lc (ins, bs)) = bs"
    with assms(1) st show ?thesis by (auto simp add: scanned_def)
  next
    assume "\<exists>b. snd (scanLine n lc (ins, bs)) = bs @ [b] \<and> line b = n \<and> token_of lc b"
    then obtain b where b: "snd (scanLine n lc (ins, bs)) = bs @ [b]" "line b = n" "token_of lc b"
      by blast
    have "sorted_wrt (<) (map line (bs @ [b]))"
      using assms(1) st b(2) by (auto simp add: scanned_def sorted_wrt_append)
    moreover have "\<forall>x\<in>set (bs @ [b]). 0 \<le> line x \<and> line x < n + 1 \<and>
        (\<exists>lineContent. getLine document (line x) = Inr lineContent \<and> token_of lineContent x)"
      using assms st b(2,3) by (auto simp add: scanned_def)
    ultimately show ?thesis unfolding st b(1) scanned_def by blast
  qed
qed

lemma scanLoop_scanned:
  "scanLoop document n st = Inr ts \<Longrightarrow> 0 \<le> n \<Longrightarrow> scanned document n (snd st)
     \<Longrightarrow> \<exists>m. scanned document m ts"
proof (induction document n st rule: scanLoop.induct)
  case (1 document lineNumber st)
  show ?case
  proof (cases "lineNumber < lineCount document")
    case False
    with "1.prems" show ?thesis by (auto simp add: scanLoop.simps)
  next
    case True
    show ?thesis
    proof (cases "getLine document lineNumber")
      case (Inl e)
      with True "1.prems"(1) show ?thesis by (simp add: scanLoop.simps)
    next
      case (Inr lc)
      have "scanLoop document (lineNumber + 1) (scanLine lineNumber lc st) = Inr ts"
        using "1.prems"(1) True Inr by (simp add: scanLoop.simps)
      moreover have "scanned document (lineNumber + 1) (snd (scanLine lineNumber lc st))"
        using scanned_step "1.prems"(2,3) Inr by blast
      ultimately show ?thesis
        using "1.IH" [OF True Inr] "1.prems"(2) by simp
    qed
  qed
qed

lemma scanAllBrackets_scanned:
  "scanAllBrackets document = Inr ts \<Longrightarrow> \<exists>m. scanned document m ts"
  unfolding scanAllBrackets_def
  by (erule scanLoop_scanned) (simp_all add: scanned_def)

lemma scanLoop_throws:
  "n \<le> l \<Longrightarrow> l < lineCount document \<Longrightarrow> getLine document l = Inl e
     \<Longrightarrow> scanLoop document n st = Inl Exception"
proof (induction document n st rule: scanLoop.induct)
  case (1 document lineNumber st)
  have lt: "lineNumber < lineCount document" using "1.prems" by simp
  show ?case
  proof (cases "getLine document lineNumber")
    case (Inl e')
    with lt show ?thesis by (cases e') (simp add: scanLoop.simps)
  next
    case (Inr lc)
    then have "lineNumber \<noteq> l" using "1.prems"(3) by auto
    then have "lineNumber + 1 \<le> l" using "1.prems"(1) by simp
    then have "scanLoop document (lineNumber + 1) (scanLine lineNumber lc st) = Inl Exception"
      using "1.IH" [OF lt Inr] "1.prems"(2,3) by blast
    then show ?thesis using lt Inr by (simp add: scanLoop.simps)
  qed
qed

subsection \<open>The matcher\<close>

lemma scanForward_walk: "scanForward brackets stack i = walk True stack (drop i brackets)"
proof (induction brackets stack i rule: scanForward.induct)
  case (1 brackets stack i)
  show ?case
  proof (cases "i < length brackets")
    case False
    then show ?thesis by (simp add: scanForward.simps)
  next
    case True
    then have d: "drop i brackets = brackets ! i # drop (i + 1) brackets"
      by (simp add: Cons_nth_drop_Suc)
    show ?thesis
      unfolding d
      by (subst scanForward.simps) (use True "1.IH" in \<open>auto simp add: Let_def\<close>)
  qed
qed

lemma scanBackward_walk:
  "n \<le> length brackets \<Longrightarrow> scanBackward brackets stack n = walk False stack (rev (take n brackets))"
proof (induction n arbitrary: stack)
  case 0
  then show ?case by simp
next
  case (Suc n)
  then have "rev (take (Suc n) brackets) = brackets ! n # rev (take n brackets)"
    by (simp add: take_Suc_conv_app_nth)
  then show ?case using Suc by (simp add: Let_def)
qed

lemma walk_result:
  "walk d stack xs = Some b \<Longrightarrow> stack \<noteq> []
     \<Longrightarrow> b \<in> set xs \<and> isOpening b \<noteq> d \<and> colonCount b = colonCount (hd stack)"
proof (induction xs arbitrary: stack)
  case Nil
  then show ?case by simp
next
  case (Cons x xs)
  show ?case
  proof (cases "isOpening x = d")
    case True
    then have "walk d (stack @ [x]) xs = Some b" using Cons.prems(1) by simp
    then show ?thesis using Cons.IH [of "stack @ [x]"] Cons.prems(2) by auto
  next
    case False
    show ?thesis
    proof (cases "colonCount (last stack) = colonCount x")
      case eq: True
      show ?thesis
      proof (cases "butlast stack = []")
        case True
        then have "stack = [last stack]" using Cons.prems(2)
          by (metis append_butlast_last_id append_Nil)
        then have "hd stack = last stack" by (metis list.sel(1))
        moreover have "b = x" using Cons.prems True eq False by simp
        ultimately show ?thesis using eq False by simp
      next
        case ne: False
        then have "walk d (butlast stack) xs = Some b" using Cons.prems eq False by simp
        moreover have "hd (butlast stack) = hd stack" using ne by (cases stack) auto
        ultimately show ?thesis using Cons.IH [of "butlast stack"] ne by auto
      qed
    next
      case ne: False
      then have "walk d stack xs = Some b" using Cons.prems False by simp
      then show ?thesis using Cons.IH [of stack] Cons.prems(2) by auto
    qed
  qed
qed

lemma walk_nested:
  "nested xs \<Longrightarrow> stack \<noteq> [] \<Longrightarrow> walk True stack (xs @ rest) = walk True stack rest"
proof (induction xs arbitrary: stack rest rule: nested.induct)
  case empty
  then show ?case by simp
next
  case (pair xs ob cb)
  have "walk True stack ((ob # xs @ [cb]) @ rest) = walk True (stack @ [ob]) (xs @ cb # rest)"
    using pair.hyps by simp
  also have "\<dots> = walk True (stack @ [ob]) (cb # rest)"
    using pair.IH [of "stack @ [ob]" "cb # rest"] by simp
  also have "\<dots> = walk True stack rest"
    using pair.hyps pair.prems by simp
  finally show ?case .
next
  case (seq xs ys)
  then show ?case by simp
qed

lemma walk_nested_rev:
  "nested xs \<Longrightarrow> stack \<noteq> [] \<Longrightarrow> walk False stack (rev xs @ rest) = walk False stack rest"
proof (induction xs arbitrary: stack rest rule: nested.induct)
  case empty
  then show ?case by simp
next
  case (pair xs ob cb)
  have "walk False stack (rev (ob # xs @ [cb]) @ rest) = walk False (stack @ [cb]) (rev xs @ ob # rest)"
    using pair.hyps by simp
  also have "\<dots> = walk False (stack @ [cb]) (ob # rest)"
    using pair.IH [of "stack @ [cb]" "ob # rest"] by simp
  also have "\<dots> = walk False stack rest"
    using pair.hyps pair.prems by simp
  finally show ?case .
next
  case (seq xs ys)
  then show ?case by simp
qed

lemma findIndex_Some:
  "findIndex P xs = Some i \<Longrightarrow> i < length xs \<and> P (xs ! i)"
proof (induction xs arbitrary: i)
  case Nil
  then show ?case by simp
next
  case (Cons x xs)
  then show ?case by (cases "P x") auto
qed

lemma findIndex_append:
  "\<forall>x\<in>set pre. \<not> P x \<Longrightarrow> P y \<Longrightarrow> findIndex P (pre @ y # rest) = Some (length pre)"
  by (induction pre) auto

subsection \<open>The query\<close>

lemma findMatchingBrackets_SomeD:
  assumes "findMatchingBrackets document position = Some m"
  shows "\<exists>lc k bs i mb.
           getLine document (Position.line position) = Inr lc \<and>
           detectBracketAtPosition lc (column position) = Some k \<and>
           scanAllBrackets document = Inr bs \<and>
           findIndex (\<lambda>b. line b = Position.line position) bs = Some i \<and>
           findMatchingBracket bs i = Some mb \<and>
           createBracketRange document (if isOpening (bs ! i) then bs ! i else mb) = Inr (opening m) \<and>
           createBracketRange document (if isOpening (bs ! i) then mb else bs ! i) = Inr (closing m) \<and>
           BracketMatch.colonCount m = colonCount (bs ! i)"
  using assms unfolding findMatchingBrackets_def findMatchingBrackets_body_def
  by (auto simp add: Let_def split: sum.splits option.splits if_splits)

lemma createBracketRange_lines:
  "createBracketRange document b = Inr r \<Longrightarrow> startLine r = line b \<and> endLine r = line b"
  unfolding createBracketRange_def
  by (auto simp add: Let_def split: sum.splits option.splits if_splits)

lemma findMatchingBracket_partner:
  assumes "findMatchingBracket bs i = Some mb" and "i < length bs"
  shows "colonCount mb = colonCount (bs ! i)"
    and "isOpening mb \<longleftrightarrow> \<not> isOpening (bs ! i)"
    and "if isOpening (bs ! i) then mb \<in> set (drop (Suc i) bs) else mb \<in> set (take i bs)"
proof -
  have "colonCount mb = colonCount (bs ! i) \<and> (isOpening mb \<longleftrightarrow> \<not> isOpening (bs ! i)) \<and>
        (if isOpening (bs ! i) then mb \<in> set (drop (Suc i) bs) else mb \<in> set (take i bs))"
  proof (cases "isOpening (bs ! i)")
    case True
    then have "walk True [bs ! i] (drop (Suc i) bs) = Some mb"
      using assms(1) by (simp add: findMatchingBracket_def scanForward_walk)
    from walk_result [OF this] True show ?thesis by simp
  next
    case False
    then have "walk False [bs ! i] (rev (take i bs)) = Some mb"
      using assms by (simp add: findMatchingBracket_def scanBackward_walk)
    from walk_result [OF this] False show ?thesis by simp
  qed
  then show "colonCount mb = colonCount (bs ! i)"
    and "isOpening mb \<longleftrightarrow> \<not> isOpening (bs ! i)"
    and "if isOpening (bs ! i) then mb \<in> set (drop (Suc i) bs) else mb \<in> set (take i bs)"
    by blast+
qed

lemma sorted_lines_split:
  assumes "sorted_wrt (<) (map line bs)" and "i < length bs"
  shows "\<forall>x\<in>set (take i bs). line x < line (bs ! i)"
    and "\<forall>y\<in>set (drop (Suc i) bs). line (bs ! i) < line y"
proof -
  have "bs = take i bs @ bs ! i # drop (Suc i) bs"
    using assms(2) by (rule id_take_nth_drop)
  then have "sorted_wrt (<) (map line (take i bs @ bs ! i # drop (Suc i) bs))"
    using assms(1) by simp
  then show "\<forall>x\<in>set (take i bs). line x < line (bs ! i)"
    and "\<forall>y\<in>set (drop (Suc i) bs). line (bs ! i) < line y"
    by (auto simp add: sorted_wrt_append)
qed

lemma match_tokens:
  assumes "findMatchingBrackets document position = Some m"
  shows "\<exists>bs ob cb.
           scanAllBrackets document = Inr bs \<and> ob \<in> set bs \<and> cb \<in> set bs \<and>
           isOpening ob \<and> \<not> isOpening cb \<and>
           line ob = startLine (opening m) \<and> line cb = startLine (closing m) \<and>
           line ob < line cb \<and>
           colonCount ob = BracketMatch.colonCount m \<and>
           colonCount cb = BracketMatch.colonCount m"
proof -
  from findMatchingBrackets_SomeD [OF assms] obtain lc k bs i mb where
    scan: "scanAllBrackets document = Inr bs"
    and idx: "findIndex (\<lambda>b. line b = Position.line position) bs = Some i"
    and mb: "findMatchingBracket bs i = Some mb"
    and r1: "createBracketRange document (if isOpening (bs ! i) then bs ! i else mb) = Inr (opening m)"
    and r2: "createBracketRange document (if isOpening (bs ! i) then mb else bs ! i) = Inr (closing m)"
    and cc: "BracketMatch.colonCount m = colonCount (bs ! i)"
    by blast
  have i: "i < length bs" using findIndex_Some [OF idx] by simp
  note p = findMatchingBracket_partner [OF mb i]
  obtain n where "scanned document n bs" using scanAllBrackets_scanned [OF scan] by blast
  then have sorted: "sorted_wrt (<) (map line bs)" by (simp add: scanned_def)
  note s = sorted_lines_split [OF sorted i]
  have cur: "bs ! i \<in> set bs" using i by simp
  show ?thesis
  proof (cases "isOpening (bs ! i)")
    case True
    then have mem: "mb \<in> set (drop (Suc i) bs)" using p(3) by simp
    then have "mb \<in> set bs" by (rule in_set_dropD)
    moreover have "line (bs ! i) < line mb" using s(2) mem by blast
    ultimately show ?thesis
      using True scan cur p(1,2) cc createBracketRange_lines [OF r1] createBracketRange_lines [OF r2]
      by (intro exI [of _ bs] exI [of _ "bs ! i"] exI [of _ mb]) simp
  next
    case False
    then have mem: "mb \<in> set (take i bs)" using p(3) by simp
    then have "mb \<in> set bs" by (rule in_set_takeD)
    moreover have "line mb < line (bs ! i)" using s(1) mem by blast
    ultimately show ?thesis
      using False scan cur p(1,2) cc createBracketRange_lines [OF r1] createBracketRange_lines [OF r2]
      by (intro exI [of _ bs] exI [of _ mb] exI [of _ "bs ! i"]) simp
  qed
qed

lemma query_not_qualifying:
  "getLine document (Position.line position) = Inr lc
     \<Longrightarrow> detectBracketAtPosition lc (column position) = None
     \<Longrightarrow> findMatchingBrackets document position = None"
  unfolding findMatchingBrackets_def findMatchingBrackets_body_def by simp

lemma query_column_indep:
  assumes "Position.line p = Position.line q"
    and "getLine document (Position.line p) = Inr lc"
    and "detectBracketAtPosition lc (column p) \<noteq> None"
    and "detectBracketAtPosition lc (column q) \<noteq> None"
  shows "findMatchingBrackets document p = findMatchingBrackets document q"
  using assms unfolding findMatchingBrackets_def findMatchingBrackets_body_def
  by (auto simp add: Let_def split: sum.splits option.splits)

lemma query_throws:
  assumes "getLine document (Position.line position) = Inl e \<or>
           (\<exists>l. 0 \<le> l \<and> l < lineCount document \<and> getLine document l = Inl e)"
  shows "findMatchingBrackets document position = None"
proof (cases "getLine document (Position.line position)")
  case (Inl e')
  then show ?thesis by (simp add: findMatchingBrackets_def findMatchingBrackets_body_def)
next
  case (Inr lc)
  with assms obtain l where l: "0 \<le> l" "l < lineCount document" "getLine document l = Inl e"
    by auto
  have "scanAllBrackets document = Inl Exception"
    unfolding scanAllBrackets_def using l by (rule scanLoop_throws)
  then show ?thesis
    using Inr by (simp add: findMatchingBrackets_def findMatchingBrackets_body_def split: option.splits)
qed

lemma query_pair:
  assumes scan: "scanAllBrackets document = Inr (pre @ ob # mid @ cb # post)"
    and ob: "isOpening ob" and cb: "\<not> isOpening cb"
    and cc: "colonCount ob = colonCount cb"
    and mid: "nested mid"
    and p: "Position.line p = line ob" "getLine document (line ob) = Inr lo"
           "detectBracketAtPosition lo (column p) \<noteq> None"
    and q: "Position.line q = line cb" "getLine document (line cb) = Inr lc"
           "detectBracketAtPosition lc (column q) \<noteq> None"
    and r: "createBracketRange document ob = Inr r1" "createBracketRange document cb = Inr r2"
  shows "findMatchingBrackets document p =
           Some \<lparr>opening = r1, closing = r2, colonCount = colonCount ob\<rparr>"
    and "findMatchingBrackets document q =
           Some \<lparr>opening = r1, closing = r2, colonCount = colonCount ob\<rparr>"
proof -
  define bs where "bs = pre @ ob # mid @ cb # post"
  define front where "front = pre @ ob # mid"
  have bs1: "bs = pre @ ob # (mid @ cb # post)" by (simp add: bs_def)
  have bs2: "bs = front @ cb # post" by (simp add: bs_def front_def)
  have scan': "scanAllBrackets document = Inr bs" using scan by (simp add: bs_def)
  obtain n where "scanned document n bs" using scanAllBrackets_scanned [OF scan'] by blast
  then have "sorted_wrt (<) (map line bs)" by (simp add: scanned_def)
  then have sw: "sorted_wrt (\<lambda>x y. line x < line y) bs"
    by (simp only: sorted_wrt_map)
  have "\<forall>x\<in>set pre. \<forall>y\<in>set (ob # (mid @ cb # post)). line x < line y"
    using sw unfolding bs1 sorted_wrt_append by blast
  then have before_ob: "\<forall>x\<in>set pre. \<not> line x = Position.line p"
    unfolding p(1) by fastforce
  have "\<forall>x\<in>set front. \<forall>y\<in>set (cb # post). line x < line y"
    using sw unfolding bs2 sorted_wrt_append by blast
  then have before_cb: "\<forall>x\<in>set front. \<not> line x = Position.line q"
    unfolding q(1) by fastforce
  have i1: "findIndex (\<lambda>b. line b = Position.line p) bs = Some (length pre)"
    unfolding bs1 using before_ob p(1) [symmetric] by (rule findIndex_append)
  have i2: "findIndex (\<lambda>b. line b = Position.line q) bs = Some (length front)"
    unfolding bs2 using before_cb q(1) [symmetric] by (rule findIndex_append)
  have n1: "bs ! length pre = ob" unfolding bs1 by simp
  have n2: "bs ! length front = cb" unfolding bs2 by simp
  have d1: "drop (Suc (length pre)) bs = mid @ cb # post" unfolding bs1 by simp
  have t2: "rev (take (length front) bs) = rev mid @ ob # rev pre"
    unfolding bs2 by (simp add: front_def)
  have w1: "walk True [ob] (mid @ cb # post) = Some cb"
    using walk_nested [OF mid, of "[ob]" "cb # post"] ob cb cc by simp
  have w2: "walk False [cb] (rev mid @ ob # rev pre) = Some ob"
    using walk_nested_rev [OF mid, of "[cb]" "ob # rev pre"] ob cb cc by simp
  have "scanForward bs [ob] (length pre + 1) = Some cb"
    unfolding scanForward_walk using d1 w1 by simp
  then have m1: "findMatchingBracket bs (length pre) = Some cb"
    unfolding findMatchingBracket_def Let_def n1 using ob by simp
  have "scanBackward bs [cb] (length front) = Some ob"
    using scanBackward_walk [of "length front" bs "[cb]"] t2 w2 by (simp add: bs2)
  then have m2: "findMatchingBracket bs (length front) = Some ob"
    unfolding findMatchingBracket_def Let_def n2 using cb by simp
  have ne: "length bs \<noteq> 0" by (simp add: bs1)
  have g1: "getLine document (Position.line p) = Inr lo" using p by simp
  have g2: "getLine document (Position.line q) = Inr lc" using q by simp
  obtain k1 where k1: "detectBracketAtPosition lo (column p) = Some k1" using p(3) by blast
  obtain k2 where k2: "detectBracketAtPosition lc (column q) = Some k2" using q(3) by blast
  have "findMatchingBrackets_body document p =
          Inr (Some \<lparr>opening = r1, closing = r2, colonCount = colonCount ob\<rparr>)"
    using ob r ne by (simp add: findMatchingBrackets_body_def g1 k1 scan' i1 m1 n1 Let_def)
  then show "findMatchingBrackets document p =
          Some \<lparr>opening = r1, closing = r2, colonCount = colonCount ob\<rparr>"
    by (simp add: findMatchingBrackets_def)
  have "findMatchingBrackets_body document q =
          Inr (Some \<lparr>opening = r1, closing = r2, colonCount = colonCount ob\<rparr>)"
    using cb cc r ne by (simp add: findMatchingBrackets_body_def g2 k2 scan' i2 m2 n2 Let_def)
  then show "findMatchingBrackets document q =
          Some \<lparr>opening = r1, closing = r2, colonCount = colonCount ob\<rparr>"
    by (simp add: findMatchingBrackets_def)
qed


subsection \<open>The range builder\<close>

lemma search_None:
  "(\<And>k. k \<le> length s \<Longrightarrow> match_at r (drop k s) = None) \<Longrightarrow> search r i s = None"
proof (induction s arbitrary: i)
  case Nil
  then show ?case by simp
next
  case (Cons c t)
  have "match_at r (c # t) = None" using Cons.prems [of 0] by simp
  moreover have "search r (Suc i) t = None"
  proof (rule Cons.IH)
    fix k assume "k \<le> length t"
    then show "match_at r (drop k t) = None" using Cons.prems [of "Suc k"] by simp
  qed
  ultimately show ?case by simp
qed

lemma search_skip:
  "(\<And>k. k < length ws \<Longrightarrow> match_at r (drop k (ws @ s)) = None)
     \<Longrightarrow> search r i (ws @ s) = search r (i + length ws) s"
proof (induction ws arbitrary: i)
  case Nil
  then show ?case by simp
next
  case (Cons w ws)
  have "match_at r (w # ws @ s) = None" using Cons.prems [of 0] by simp
  moreover have "search r (Suc i) (ws @ s) = search r (Suc i + length ws) s"
  proof (rule Cons.IH)
    fix k assume "k < length ws"
    then show "match_at r (drop k (ws @ s)) = None" using Cons.prems [of "Suc k"] by simp
  qed
  ultimately show ?case by simp
qed

lemma match_at_closing_range:
  "match_at re_closing_range t =
     (if 2 \<le> length t \<and> (\<forall>c\<in>set t. is_colon c) then Some [t, t] else None)"
proof (cases "\<forall>c\<in>set t. is_colon c")
  case True
  then have eq: "takeWhile is_colon t = t" "dropWhile is_colon t = []" by simp_all
  show ?thesis
    unfolding match_at_def re_closing_range_def regex.simps seq_colons_end Let_def eq
    using True by simp
next
  case False
  then have "dropWhile is_colon t \<noteq> []" by (simp add: dropWhile_eq_Nil_conv)
  then show ?thesis
    unfolding match_at_def re_closing_range_def regex.simps seq_colons_end
    using False by (simp add: Let_def)
qed

declare lastIndexOf_from.simps [simp del]

lemma lastIndexOf_from_short:
  "length s < length pat \<Longrightarrow> lastIndexOf_from i s pat = - 1"
proof (induction s arbitrary: i)
  case Nil
  then show ?case by (subst lastIndexOf_from.simps) auto
next
  case (Cons c t)
  then have "lastIndexOf_from (Suc i) t pat = - 1" by simp
  moreover have "length (take (length pat) (c # t)) \<noteq> length pat"
    using Cons.prems by simp
  then have "take (length pat) (c # t) \<noteq> pat" by metis
  ultimately show ?case by (subst lastIndexOf_from.simps) simp
qed

lemma lastIndexOf_from_end:
  "lastIndexOf_from i (ws @ pat) pat = int (i + length ws)"
proof (induction ws arbitrary: i)
  case Nil
  have "(case pat of [] \<Rightarrow> - 1 | c # t \<Rightarrow> lastIndexOf_from (Suc i) t pat) = - 1"
    by (cases pat) (simp_all add: lastIndexOf_from_short)
  then show ?case by (subst lastIndexOf_from.simps) simp
next
  case (Cons w ws)
  have "lastIndexOf_from (Suc i) (ws @ pat) pat = int (Suc i + length ws)" by (rule Cons.IH)
  then show ?case by (subst lastIndexOf_from.simps) simp
qed

lemma closing_range_exact:
  assumes "getLine document (line b) = Inr (ws @ cs)" and "\<not> isOpening b"
    and "\<forall>c\<in>set ws. \<not> is_colon c" and "\<forall>c\<in>set cs. is_colon c" and "2 \<le> length cs"
  shows "createBracketRange document b =
           Inr \<lparr>startLine = line b, startColumn = int (length ws),
                endLine = line b, endColumn = int (length ws) + int (length cs)\<rparr>"
proof -
  have "match_at re_closing_range (drop k (ws @ cs)) = None" if "k < length ws" for k
  proof -
    have "drop k (ws @ cs) = ws ! k # drop (Suc k) ws @ cs"
      using that by (simp add: Cons_nth_drop_Suc)
    moreover have "\<not> is_colon (ws ! k)" using that assms(3) by simp
    ultimately show ?thesis by (simp add: match_at_closing_range)
  qed
  then have "search re_closing_range 0 (ws @ cs) = search re_closing_range (0 + length ws) cs"
    by (rule search_skip)
  also have "\<dots> = Some (length ws, [cs, cs])"
    using assms(4,5) by (simp add: match_at_closing_range)
  finally have m: "js_match re_closing_range (ws @ cs) = Some (length ws, [cs, cs])"
    by (simp add: js_match_def re_closing_range_def)
  have l: "lastIndexOf (ws @ cs) cs = int (length ws)"
    using lastIndexOf_from_end [of 0 ws cs] by (simp add: lastIndexOf_def)
  show ?thesis
    unfolding createBracketRange_def using assms(1,2) by (simp add: m l Let_def)
qed

lemma closing_range_fallback:
  assumes "getLine document (line b) = Inr (ws @ cs @ ws')" and "\<not> isOpening b"
    and "ws' \<noteq> []" and "\<forall>c\<in>set ws'. is_space c"
  shows "createBracketRange document b =
           Inr \<lparr>startLine = line b, startColumn = 0,
                endLine = line b, endColumn = int (length (ws @ cs @ ws'))\<rparr>"
proof -
  have "match_at re_closing_range (drop k (ws @ cs @ ws')) = None" for k
  proof (cases "drop k (ws @ cs @ ws') = []")
    case True
    then show ?thesis by (simp add: match_at_closing_range)
  next
    case False
    then have "last (drop k (ws @ cs @ ws')) = last ws'"
      using assms(3) by (metis append_assoc last_appendR last_drop drop_eq_Nil not_le)
    then have "is_space (last (drop k (ws @ cs @ ws')))" using assms(3,4) by simp
    then have "\<exists>c\<in>set (drop k (ws @ cs @ ws')). \<not> is_colon c"
      using False space_not_colon last_in_set by blast
    then show ?thesis unfolding match_at_closing_range by auto
  qed
  then have "search re_closing_range 0 (ws @ cs @ ws') = None"
    by (intro search_None)
  then have m: "js_match re_closing_range (ws @ cs @ ws') = None"
    by (simp add: js_match_def re_closing_range_def)
  show ?thesis
    unfolding createBracketRange_def using assms(1,2) by (simp add: m Let_def)
qed

subsection \<open>Lines that match the opening pattern\<close>

lemma opening_line_iff:
  "js_match re_opening_line s \<noteq> None \<longleftrightarrow>
     (\<exists>ws cs nm rest. s = ws @ cs @ nm @ rest \<and> (\<forall>c\<in>set ws. is_space c) \<and>
        (\<forall>c\<in>set cs. is_colon c) \<and> 2 \<le> length cs \<and> (\<forall>c\<in>set nm. is_name c) \<and> nm \<noteq> [] \<and>
        (rest = [] \<or> \<not> is_name (hd rest)))"
proof
  assume m: "js_match re_opening_line s \<noteq> None"
  let ?ws = "takeWhile is_space s" and ?r = "dropWhile is_space s"
  let ?cs = "takeWhile is_colon ?r" and ?r' = "dropWhile is_colon ?r"
  let ?nm = "takeWhile is_name ?r'" and ?rest = "dropWhile is_name ?r'"
  have len: "2 \<le> length ?cs" "1 \<le> length ?nm"
    using m unfolding match_opening_line Let_def by (auto split: if_splits)
  have "s = ?ws @ ?cs @ ?nm @ ?rest" by simp
  moreover have "\<forall>c\<in>set ?ws. is_space c" "\<forall>c\<in>set ?cs. is_colon c" "\<forall>c\<in>set ?nm. is_name c"
    by (auto dest: set_takeWhileD)
  moreover have "?nm \<noteq> []" using len(2) by auto
  moreover have "?rest = [] \<or> \<not> is_name (hd ?rest)" using hd_dropWhile by blast
  ultimately show "\<exists>ws cs nm rest. s = ws @ cs @ nm @ rest \<and> (\<forall>c\<in>set ws. is_space c) \<and>
        (\<forall>c\<in>set cs. is_colon c) \<and> 2 \<le> length cs \<and> (\<forall>c\<in>set nm. is_name c) \<and> nm \<noteq> [] \<and>
        (rest = [] \<or> \<not> is_name (hd rest))"
    using len(1) by blast
next
  assume "\<exists>ws cs nm rest. s = ws @ cs @ nm @ rest \<and> (\<forall>c\<in>set ws. is_space c) \<and>
        (\<forall>c\<in>set cs. is_colon c) \<and> 2 \<le> length cs \<and> (\<forall>c\<in>set nm. is_name c) \<and> nm \<noteq> [] \<and>
        (rest = [] \<or> \<not> is_name (hd rest))"
  then obtain ws cs nm rest where d: "s = ws @ cs @ nm @ rest" "\<forall>c\<in>set ws. is_space c"
    "\<forall>c\<in>set cs. is_colon c" "2 \<le> length cs" "\<forall>c\<in>set nm. is_name c" "nm \<noteq> []"
    "rest = [] \<or> \<not> is_name (hd rest)"
    by blast
  note p = opening_line_parts [OF d]
  have "1 \<le> length nm" using d(6) by (cases nm) auto
  then show "js_match re_opening_line s \<noteq> None"
    unfolding match_opening_line using d(4) by (simp add: p Let_def)
qed


subsection \<open>Queries on the lines of the scenarios\<close>

lemma query_by_column:
  assumes "getLine document l = Inr lc" and "detectBracketAtPosition lc c0 \<noteq> None"
  shows "findMatchingBrackets document \<lparr>Position.line = l, column = col\<rparr> =
           (if detectBracketAtPosition lc col = None then None
            else findMatchingBrackets document \<lparr>Position.line = l, column = c0\<rparr>)"
proof (cases "detectBracketAtPosition lc col = None")
  case True
  then show ?thesis using query_not_qualifying [of document "\<lparr>Position.line = l, column = col\<rparr>" lc] assms(1)
    by simp
next
  case False
  have "findMatchingBrackets document \<lparr>Position.line = l, column = col\<rparr> =
        findMatchingBrackets document \<lparr>Position.line = l, column = c0\<rparr>"
    by (rule query_column_indep [where lc = lc]) (use False assms in simp_all)
  with False show ?thesis by auto
qed

lemma detect_plain_opening:
  assumes "\<forall>c\<in>set cs. is_colon c" and "2 \<le> length cs"
    and "\<forall>c\<in>set nm. is_name c" and "nm \<noteq> []"
  shows "detectBracketAtPosition (cs @ nm) col =
           (if 0 \<le> col \<and> col \<le> int (length cs) + int (length nm)
            then Some (int (length cs)) else None)"
  using detect_on_opening_line [of "cs @ nm" "[]" cs nm "[]" col] assms by simp

lemma colons2: "\<forall>c\<in>set (str ''::''). is_colon c" "2 \<le> length (str ''::'')" "length (str ''::'') = 2"
  by (simp_all add: str_def is_colon_def)

lemma detect_outer:
  "detectBracketAtPosition (str ''::outer'') col = (if 0 \<le> col \<and> col \<le> 7 then Some 2 else None)"
proof -
  have "str ''::outer'' = str ''::'' @ str ''outer''" by (simp add: str_def)
  moreover have "\<forall>c\<in>set (str ''outer''). is_name c" "str ''outer'' \<noteq> []" "length (str ''outer'') = 5"
    by (simp_all add: str_def is_name_def is_word_def)
  ultimately show ?thesis
    using detect_plain_opening [of "str ''::''" "str ''outer''" col] colons2 by simp
qed

lemma detect_inner:
  "detectBracketAtPosition (str ''::inner'') col = (if 0 \<le> col \<and> col \<le> 7 then Some 2 else None)"
proof -
  have "str ''::inner'' = str ''::'' @ str ''inner''" by (simp add: str_def)
  moreover have "\<forall>c\<in>set (str ''inner''). is_name c" "str ''inner'' \<noteq> []" "length (str ''inner'') = 5"
    by (simp_all add: str_def is_name_def is_word_def)
  ultimately show ?thesis
    using detect_plain_opening [of "str ''::''" "str ''inner''" col] colons2 by simp
qed

lemma detect_component:
  "detectBracketAtPosition (str ''::component'') col = (if 0 \<le> col \<and> col \<le> 11 then Some 2 else None)"
proof -
  have "str ''::component'' = str ''::'' @ str ''component''" by (simp add: str_def)
  moreover have "\<forall>c\<in>set (str ''component''). is_name c" "str ''component'' \<noteq> []"
    "length (str ''component'') = 9"
    by (simp_all add: str_def is_name_def is_word_def)
  ultimately show ?thesis
    using detect_plain_opening [of "str ''::''" "str ''component''" col] colons2 by simp
qed


section \<open>The claims\<close>

text \<open>
  Claim C1 fails on the code. The query on an opening delimiter and the query on the
  closing delimiter it is paired with must return the same match. The forward loop skips
  a closing bracket whose colon count differs from the top of the stack, while the
  backward loop pushes every closing bracket it meets. In the document \<open>::component\<close>,
  \<open>:::\<close>, \<open>Content\<close>, \<open>::\<close> the query on line 0 skips the \<open>:::\<close> and returns the
  pair of lines 0 and 3, and the query on the \<open>::\<close> of line 3, at a position that the
  classifier accepts, returns none. In the document \<open>::a\<close>, \<open>:::b\<close>, \<open>::c\<close>, \<open>:::\<close>,
  \<open>::\<close> the closing of line 4 is paired with line 2 by the query on line 2, and with
  line 0 by the query on line 4. The two queries agree when the brackets between the
  pair are properly nested (\<open>query_pair\<close>).
\<close>

theorem symmetry_broken_by_stray_closing:
  "findMatchingBrackets doc_skipped \<lparr>Position.line = 0, column = 0\<rparr> =
     Some \<lparr>opening = \<lparr>startLine = 0, startColumn = 0, endLine = 0, endColumn = 11\<rparr>,
           closing = \<lparr>startLine = 3, startColumn = 0, endLine = 3, endColumn = 2\<rparr>,
           colonCount = 2\<rparr> \<and>
   getLine doc_skipped 3 = Inr (str ''::'') \<and>
   detectBracketAtPosition (str ''::'') 0 = Some 2 \<and>
   findMatchingBrackets doc_skipped \<lparr>Position.line = 3, column = 0\<rparr> = None \<and>
   findMatchingBrackets doc_two_partners \<lparr>Position.line = 2, column = 0\<rparr> =
     Some \<lparr>opening = \<lparr>startLine = 2, startColumn = 0, endLine = 2, endColumn = 3\<rparr>,
           closing = \<lparr>startLine = 4, startColumn = 0, endLine = 4, endColumn = 2\<rparr>,
           colonCount = 2\<rparr> \<and>
   findMatchingBrackets doc_two_partners \<lparr>Position.line = 4, column = 0\<rparr> =
     Some \<lparr>opening = \<lparr>startLine = 0, startColumn = 0, endLine = 0, endColumn = 3\<rparr>,
           closing = \<lparr>startLine = 4, startColumn = 0, endLine = 4, endColumn = 2\<rparr>,
           colonCount = 2\<rparr> \<and>
   findMatchingBrackets doc_two_partners \<lparr>Position.line = 0, column = 0\<rparr> = None"
  by code_simp


text \<open>
  Claim C2 fails on the code. The range builder matches its pattern for closing brackets,
  which is anchored at the end, against the raw line, while the scanner matched the
  trimmed line. For a closing line without trailing whitespace the range is the colon run
  (\<open>closing_range_exact\<close>); for a closing line with trailing whitespace the pattern does
  not match and the range is the whole line (\<open>closing_range_fallback\<close>). On the line
  \<open>  ::  \<close>, which the scanner turns into a closing bracket, the range is columns 0 to 6,
  not the colon run of columns 2 to 4.
\<close>

theorem closing_range_trailing_whitespace:
  "scanAllBrackets doc_trailing =
     Inr [\<lparr>line = 0, colonCount = 2, isOpening = True, tagName = Some (str ''a'')\<rparr>,
          \<lparr>line = 1, colonCount = 2, isOpening = False, tagName = None\<rparr>] \<and>
   createBracketRange doc_trailing \<lparr>line = 1, colonCount = 2, isOpening = False, tagName = None\<rparr> =
     Inr \<lparr>startLine = 1, startColumn = 0, endLine = 1, endColumn = 6\<rparr> \<and>
   findMatchingBrackets doc_trailing \<lparr>Position.line = 0, column = 0\<rparr> =
     Some \<lparr>opening = \<lparr>startLine = 0, startColumn = 0, endLine = 0, endColumn = 3\<rparr>,
           closing = \<lparr>startLine = 1, startColumn = 0, endLine = 1, endColumn = 6\<rparr>,
           colonCount = 2\<rparr>"
  by code_simp


text \<open>
  Claim C3, as the code has it. A line matches the opening pattern exactly when it consists
  of whitespace \<open>ws\<close> (possibly none), a run \<open>cs\<close> of two or more colons, a name \<open>nm\<close> of
  word characters and hyphens, and a rest that does not continue the name
  (\<open>opening_line_iff\<close>). On such a line the classifier reports the cursor as on the
  delimiter exactly when the column lies between the index of the first colon and the
  index just after the last character of the name, both included. The column just after
  the name qualifies (the cursor is adjacent to the name); the columns beyond it and
  before the first colon yield none.
\<close>

theorem classifier_opening_span:
  assumes "lineContent = ws @ cs @ nm @ rest"
    and "\<forall>c\<in>set ws. is_space c"
    and "\<forall>c\<in>set cs. is_colon c" and "2 \<le> length cs"
    and "\<forall>c\<in>set nm. is_name c" and "nm \<noteq> []"
    and "rest = [] \<or> \<not> is_name (hd rest)"
  shows "detectBracketAtPosition lineContent col =
           (if int (length ws) \<le> col \<and> col \<le> int (length ws) + int (length cs) + int (length nm)
            then Some (int (length cs)) else None)"
  using assms by (rule detect_on_opening_line)

theorem classifier_opening_span_witness:
  "str ''  ::card text'' = str ''  '' @ str ''::'' @ str ''card'' @ str '' text'' \<and>
   length (str ''  '') = 2 \<and> length (str ''::'') = 2 \<and> length (str ''card'') = 4 \<and>
   detectBracketAtPosition (str ''  ::card text'') 8 = Some 2 \<and>
   detectBracketAtPosition (str ''  ::card text'') 9 = None"
proof -
  have 1: "str ''  ::card text'' = str ''  '' @ str ''::'' @ str ''card'' @ str '' text''"
    by (simp add: str_def)
  have 2: "\<forall>c\<in>set (str ''  ''). is_space c" by (simp add: str_def is_space_def)
  have 3: "\<forall>c\<in>set (str ''::''). is_colon c" by (simp add: str_def is_colon_def)
  have 4: "2 \<le> length (str ''::'')" by (simp add: str_def)
  have 5: "\<forall>c\<in>set (str ''card''). is_name c" by (simp add: str_def is_name_def is_word_def)
  have 6: "str ''card'' \<noteq> []" by (simp add: str_def)
  have 7: "str '' text'' = [] \<or> \<not> is_name (hd (str '' text''))"
    by (simp add: str_def is_name_def is_word_def)
  have l: "length (str ''  '') = 2" "length (str ''::'') = 2" "length (str ''card'') = 4"
    by (simp_all add: str_def)
  from classifier_opening_span [OF 1 2 3 4 5 6 7, of 8]
    classifier_opening_span [OF 1 2 3 4 5 6 7, of 9]
  show ?thesis using 1 by (simp add: l)
qed

theorem classifier_after_name_counterexample:
  "js_match re_opening_line (str ''::component'') \<noteq> None \<and>
   length (str ''::component'') = 11 \<and>
   detectBracketAtPosition (str ''::component'') 11 = Some 2"
  by code_simp


text \<open>
  Claim C4. In the document \<open>::outer\<close>, \<open>::inner\<close>, \<open>content\<close>, \<open>::\<close>, \<open>::\<close>, the query at
  a position of line 1 that the classifier accepts (columns 0 to 7) returns the match of
  lines 1 and 3, and at such a position of line 0 (columns 0 to 7) the match of lines 0
  and 4; at the other columns of these lines it returns none.
\<close>

theorem scenario_nested:
  "findMatchingBrackets doc_nested \<lparr>Position.line = 1, column = col\<rparr> =
     (if 0 \<le> col \<and> col \<le> 7
      then Some \<lparr>opening = \<lparr>startLine = 1, startColumn = 0, endLine = 1, endColumn = 7\<rparr>,
                 closing = \<lparr>startLine = 3, startColumn = 0, endLine = 3, endColumn = 2\<rparr>,
                 colonCount = 2\<rparr>
      else None) \<and>
   findMatchingBrackets doc_nested \<lparr>Position.line = 0, column = col\<rparr> =
     (if 0 \<le> col \<and> col \<le> 7
      then Some \<lparr>opening = \<lparr>startLine = 0, startColumn = 0, endLine = 0, endColumn = 7\<rparr>,
                 closing = \<lparr>startLine = 4, startColumn = 0, endLine = 4, endColumn = 2\<rparr>,
                 colonCount = 2\<rparr>
      else None)"
proof -
  have l1: "getLine doc_nested 1 = Inr (str ''::inner'')"
    and l0: "getLine doc_nested 0 = Inr (str ''::outer'')"
    by (simp_all add: doc_nested_def createDocument_def)
  have q1: "findMatchingBrackets doc_nested \<lparr>Position.line = 1, column = 0\<rparr> =
      Some \<lparr>opening = \<lparr>startLine = 1, startColumn = 0, endLine = 1, endColumn = 7\<rparr>,
            closing = \<lparr>startLine = 3, startColumn = 0, endLine = 3, endColumn = 2\<rparr>,
            colonCount = 2\<rparr>"
    by code_simp
  have q0: "findMatchingBrackets doc_nested \<lparr>Position.line = 0, column = 0\<rparr> =
      Some \<lparr>opening = \<lparr>startLine = 0, startColumn = 0, endLine = 0, endColumn = 7\<rparr>,
            closing = \<lparr>startLine = 4, startColumn = 0, endLine = 4, endColumn = 2\<rparr>,
            colonCount = 2\<rparr>"
    by code_simp
  show ?thesis
    using query_by_column [OF l1, of 0 col] query_by_column [OF l0, of 0 col]
    by (simp add: detect_inner detect_outer q1 q0)
qed


text \<open>
  Claim C5. In the document \<open>::component\<close>, \<open>```\<close>, \<open>::fake\<close>, \<open>::\<close>, \<open>```\<close>, \<open>::\<close>, the
  scan yields the brackets of lines 0 and 5 only: the colon runs of lines 2 and 3 lie in
  the fenced region. The query at a position of line 0 that the classifier accepts
  (columns 0 to 11) returns the match of lines 0 and 5.
\<close>

theorem scenario_fenced:
  "scanAllBrackets doc_fenced =
     Inr [\<lparr>line = 0, colonCount = 2, isOpening = True, tagName = Some (str ''component'')\<rparr>,
          \<lparr>line = 5, colonCount = 2, isOpening = False, tagName = None\<rparr>] \<and>
   findMatchingBrackets doc_fenced \<lparr>Position.line = 0, column = col\<rparr> =
     (if 0 \<le> col \<and> col \<le> 11
      then Some \<lparr>opening = \<lparr>startLine = 0, startColumn = 0, endLine = 0, endColumn = 11\<rparr>,
                 closing = \<lparr>startLine = 5, startColumn = 0, endLine = 5, endColumn = 2\<rparr>,
                 colonCount = 2\<rparr>
      else None)"
proof -
  have s: "scanAllBrackets doc_fenced =
     Inr [\<lparr>line = 0, colonCount = 2, isOpening = True, tagName = Some (str ''component'')\<rparr>,
          \<lparr>line = 5, colonCount = 2, isOpening = False, tagName = None\<rparr>]"
    by code_simp
  have l0: "getLine doc_fenced 0 = Inr (str ''::component'')"
    by (simp add: doc_fenced_def createDocument_def)
  have q0: "findMatchingBrackets doc_fenced \<lparr>Position.line = 0, column = 0\<rparr> =
      Some \<lparr>opening = \<lparr>startLine = 0, startColumn = 0, endLine = 0, endColumn = 11\<rparr>,
            closing = \<lparr>startLine = 5, startColumn = 0, endLine = 5, endColumn = 2\<rparr>,
            colonCount = 2\<rparr>"
    by code_simp
  show ?thesis
    using query_by_column [OF l0, of 0 col] s
    by (simp add: detect_component q0)
qed


text \<open>
  Claim C6. In the document \<open>::outer\<close>, \<open>::inner\<close>, \<open>::\<close>, the query at any position of
  line 0 returns none: the only closing bracket is paired with the opening of line 1, as
  the query at the accepted positions of line 1 (columns 0 to 7) shows, and the matcher
  finds no partner for the opening of line 0.
\<close>

theorem scenario_missing_closing:
  "findMatchingBrackets doc_missing \<lparr>Position.line = 0, column = col\<rparr> = None \<and>
   findMatchingBracket
     [\<lparr>line = 0, colonCount = 2, isOpening = True, tagName = Some (str ''outer'')\<rparr>,
      \<lparr>line = 1, colonCount = 2, isOpening = True, tagName = Some (str ''inner'')\<rparr>,
      \<lparr>line = 2, colonCount = 2, isOpening = False, tagName = None\<rparr>] 0 = None \<and>
   findMatchingBrackets doc_missing \<lparr>Position.line = 1, column = col\<rparr> =
     (if 0 \<le> col \<and> col \<le> 7
      then Some \<lparr>opening = \<lparr>startLine = 1, startColumn = 0, endLine = 1, endColumn = 7\<rparr>,
                 closing = \<lparr>startLine = 2, startColumn = 0, endLine = 2, endColumn = 2\<rparr>,
                 colonCount = 2\<rparr>
      else None)"
proof -
  have l0: "getLine doc_missing 0 = Inr (str ''::outer'')"
    and l1: "getLine doc_missing 1 = Inr (str ''::inner'')"
    by (simp_all add: doc_missing_def createDocument_def)
  have q0: "findMatchingBrackets doc_missing \<lparr>Position.line = 0, column = 0\<rparr> = None"
    by code_simp
  have m0: "findMatchingBracket
     [\<lparr>line = 0, colonCount = 2, isOpening = True, tagName = Some (str ''outer'')\<rparr>,
      \<lparr>line = 1, colonCount = 2, isOpening = True, tagName = Some (str ''inner'')\<rparr>,
      \<lparr>line = 2, colonCount = 2, isOpening = False, tagName = None\<rparr>] 0 = None"
    by code_simp
  have q1: "findMatchingBrackets doc_missing \<lparr>Position.line = 1, column = 0\<rparr> =
      Some \<lparr>opening = \<lparr>startLine = 1, startColumn = 0, endLine = 1, endColumn = 7\<rparr>,
            closing = \<lparr>startLine = 2, startColumn = 0, endLine = 2, endColumn = 2\<rparr>,
            colonCount = 2\<rparr>"
    by code_simp
  show ?thesis
    using query_by_column [OF l0, of 0 col] query_by_column [OF l1, of 0 col] m0
    by (simp add: detect_inner detect_outer q1 q0)
qed


text \<open>
  Claim C7. Whenever \<open>findMatchingBrackets\<close> returns a match, it pairs an opening and a
  closing bracket of the scan whose colon counts are equal, and equal to the \<open>colonCount\<close>
  of the result; this is the number of colons that start the trimmed text of either line.
\<close>

theorem matched_colon_counts_equal:
  assumes "findMatchingBrackets document position = Some m"
  shows "\<exists>bs ob cb lo lc.
           scanAllBrackets document = Inr bs \<and> ob \<in> set bs \<and> cb \<in> set bs \<and>
           isOpening ob \<and> \<not> isOpening cb \<and>
           line ob = startLine (opening m) \<and> line cb = startLine (closing m) \<and>
           colonCount ob = BracketMatch.colonCount m \<and>
           colonCount cb = BracketMatch.colonCount m \<and>
           getLine document (startLine (opening m)) = Inr lo \<and>
           getLine document (startLine (closing m)) = Inr lc \<and>
           int (length (takeWhile is_colon (trim lo))) = BracketMatch.colonCount m \<and>
           int (length (takeWhile is_colon (trim lc))) = BracketMatch.colonCount m"
proof -
  from match_tokens [OF assms] obtain bs ob cb where
    t: "scanAllBrackets document = Inr bs" "ob \<in> set bs" "cb \<in> set bs"
       "isOpening ob" "\<not> isOpening cb"
       "line ob = startLine (opening m)" "line cb = startLine (closing m)"
       "colonCount ob = BracketMatch.colonCount m" "colonCount cb = BracketMatch.colonCount m"
    by blast
  obtain n where n: "scanned document n bs" using scanAllBrackets_scanned [OF t(1)] by blast
  obtain lo where lo: "getLine document (line ob) = Inr lo" "token_of lo ob"
    using n t(2) unfolding scanned_def by blast
  obtain lc where lc: "getLine document (line cb) = Inr lc" "token_of lc cb"
    using n t(3) unfolding scanned_def by blast
  have "int (length (takeWhile is_colon (trim lo))) = BracketMatch.colonCount m"
    using lo(2) t(8) by (simp add: token_of_def)
  moreover have "int (length (takeWhile is_colon (trim lc))) = BracketMatch.colonCount m"
    using lc(2) t(9) by (simp add: token_of_def)
  ultimately show ?thesis
    using t lo(1) lc(1) by (intro exI [of _ bs] exI [of _ ob] exI [of _ cb] exI [of _ lo] exI [of _ lc]) simp
qed

theorem matched_colon_counts_equal_witness:
  "\<exists>bs ob cb lo lc.
     scanAllBrackets doc_mixed = Inr bs \<and> ob \<in> set bs \<and> cb \<in> set bs \<and>
     isOpening ob \<and> \<not> isOpening cb \<and>
     line ob = 0 \<and> line cb = 3 \<and> colonCount ob = 3 \<and> colonCount cb = 3 \<and>
     getLine doc_mixed 0 = Inr lo \<and> getLine doc_mixed 3 = Inr lc \<and>
     int (length (takeWhile is_colon (trim lo))) = 3 \<and>
     int (length (takeWhile is_colon (trim lc))) = 3"
proof -
  have q: "findMatchingBrackets doc_mixed \<lparr>Position.line = 3, column = 1\<rparr> =
     Some \<lparr>opening = \<lparr>startLine = 0, startColumn = 0, endLine = 0, endColumn = 4\<rparr>,
           closing = \<lparr>startLine = 3, startColumn = 0, endLine = 3, endColumn = 3\<rparr>,
           colonCount = 3\<rparr>"
    by code_simp
  from matched_colon_counts_equal [OF q] show ?thesis by simp
qed


text \<open>
  Claim C8. Whenever \<open>findMatchingBrackets\<close> returns a match, the range labelled
  \<open>opening\<close> starts on a strictly earlier line than the range labelled \<open>closing\<close>,
  whether the cursor was on the opening or on the closing delimiter.
\<close>

theorem opening_before_closing:
  assumes "findMatchingBrackets document position = Some m"
  shows "startLine (opening m) < startLine (closing m)"
  using match_tokens [OF assms] by auto

theorem opening_before_closing_witness:
  "findMatchingBrackets doc_nested \<lparr>Position.line = 3, column = 1\<rparr> =
     Some \<lparr>opening = \<lparr>startLine = 1, startColumn = 0, endLine = 1, endColumn = 7\<rparr>,
           closing = \<lparr>startLine = 3, startColumn = 0, endLine = 3, endColumn = 2\<rparr>,
           colonCount = 2\<rparr> \<and>
   startLine \<lparr>startLine = 1, startColumn = 0, endLine = 1, endColumn = 7\<rparr>
     < startLine \<lparr>startLine = 3, startColumn = 0, endLine = 3, endColumn = 2\<rparr>"
proof -
  have q: "findMatchingBrackets doc_nested \<lparr>Position.line = 3, column = 1\<rparr> =
     Some \<lparr>opening = \<lparr>startLine = 1, startColumn = 0, endLine = 1, endColumn = 7\<rparr>,
           closing = \<lparr>startLine = 3, startColumn = 0, endLine = 3, endColumn = 2\<rparr>,
           colonCount = 2\<rparr>"
    by code_simp
  from opening_before_closing [OF q] q show ?thesis by simp
qed


text \<open>
  Claim C9. If the document accessor throws for the line of the cursor, or for any line
  that the scan reads, or if the body of the query throws for any other reason, then
  \<open>findMatchingBrackets\<close> returns \<open>null\<close>; the exception does not reach the caller.
\<close>

theorem faults_become_no_match:
  assumes "findMatchingBrackets_body document position = Inl e \<or>
           getLine document (Position.line position) = Inl e \<or>
           (\<exists>l. 0 \<le> l \<and> l < lineCount document \<and> getLine document l = Inl e)"
  shows "findMatchingBrackets document position = None"
proof (cases "findMatchingBrackets_body document position = Inl e")
  case True
  then show ?thesis by (simp add: findMatchingBrackets_def)
next
  case False
  with assms show ?thesis by (intro query_throws [of document position e]) blast
qed

theorem faults_become_no_match_witness:
  "getLine doc_faulty 0 = Inr (str ''::a'') \<and>
   detectBracketAtPosition (str ''::a'') 0 = Some 2 \<and>
   0 \<le> (1::int) \<and> 1 < lineCount doc_faulty \<and> getLine doc_faulty 1 = Inl Exception \<and>
   findMatchingBrackets doc_faulty \<lparr>Position.line = 0, column = 0\<rparr> = None"
proof -
  have l: "0 \<le> (1::int) \<and> 1 < lineCount doc_faulty \<and> getLine doc_faulty 1 = Inl Exception"
    by (simp add: doc_faulty_def)
  then have "\<exists>l. 0 \<le> l \<and> l < lineCount doc_faulty \<and> getLine doc_faulty l = Inl Exception"
    by blast
  then have "findMatchingBrackets doc_faulty \<lparr>Position.line = 0, column = 0\<rparr> = None"
    using faults_become_no_match [of doc_faulty "\<lparr>Position.line = 0, column = 0\<rparr>" Exception]
    by blast
  moreover have "getLine doc_faulty 0 = Inr (str ''::a'')" by (simp add: doc_faulty_def)
  moreover have "detectBracketAtPosition (str ''::a'') 0 = Some 2" by code_simp
  ultimately show ?thesis using l by simp
qed


text \<open>
  Claim C10. A line whose trimmed content begins with three or more backticks, or with
  three or more tildes, followed by any text (a language tag, for example), toggles the
  flag \<open>insideCodeBlock\<close> of the scanner and adds no bracket.
\<close>

theorem fence_with_text_toggles:
  assumes "trim lineContent = replicate n c @ rest" and "3 \<le> n"
    and "is_backtick c \<or> is_tilde c"
  shows "scanLine lineNumber lineContent (insideCodeBlock, brackets) =
           (\<not> insideCodeBlock, brackets)"
proof -
  have ns: "\<not> is_space c" using assms(3) space_not_backtick space_not_tilde by blast
  obtain k where n: "n = Suc k" using assms(2) by (cases n) auto
  have d: "dropWhile is_space (trim lineContent) = replicate n c @ rest"
    unfolding assms(1) n using ns by simp
  have len: "n \<le> length (takeWhile P (replicate n c @ rest))" if "P c" for P
  proof -
    have "takeWhile P (replicate n c @ rest) = replicate n c @ takeWhile P rest"
      by (rule takeWhile_append2) (use that in simp)
    then show ?thesis by simp
  qed
  have "is_fence (trim lineContent)"
    unfolding is_fence_iff d using assms(2,3) len [of is_backtick] len [of is_tilde]
    by (meson le_trans)
  then show ?thesis by (simp add: scanLine_def)
qed

theorem fence_with_text_toggles_witness:
  "trim (str ''  ```js'') = replicate 3 0x60 @ str ''js'' \<and> (3::nat) \<le> 3 \<and>
   (is_backtick 0x60 \<or> is_tilde 0x60) \<and>
   scanLine 1 (str ''  ```js'') (False, []) = (\<not> False, [])"
proof -
  have t: "trim (str ''  ```js'') = replicate 3 0x60 @ str ''js''" by code_simp
  have c: "is_backtick 0x60 \<or> is_tilde 0x60" by (simp add: is_backtick_def)
  from fence_with_text_toggles [OF t _ c, of 1 False "[]"] t c show ?thesis by simp
qed

end
